theory Spec2Isabelle
  imports Main "HOL-Library.List_Lexorder" "HOL-Library.Char_ord"
begin

section \<open>Test results and the per-test task (ndk/test/builder.py)\<close>

text \<open>
  Python exceptions, as far as \<^verbatim>\<open>except Exception\<close> can tell them apart: an
  instance of \<^verbatim>\<open>Exception\<close>, or an instance of \<^verbatim>\<open>BaseException\<close> that is
  not an \<^verbatim>\<open>Exception\<close> (\<^verbatim>\<open>SystemExit\<close>, \<^verbatim>\<open>KeyboardInterrupt\<close>,
  \<^verbatim>\<open>GeneratorExit\<close>). The string is the text \<^verbatim>\<open>traceback.format_exc()\<close>
  renders for it.
\<close>

datatype py_exception = Exception string | BaseExceptionOnly string

text \<open>
  The result classes of \<^verbatim>\<open>ndk.test.result\<close>, with the constructor arguments in
  the order builder.py passes them.
\<close>

datatype 't TestResult =
    Success 't
  | Failure 't string
  | Skipped 't string
  | ExpectedFailure 't string string string
  | UnexpectedSuccess 't string string

text \<open>
  A build test, seen through the four methods \<^verbatim>\<open>_run_test\<close> calls on it. Each
  method either raises or returns; \<^verbatim>\<open>run\<close> returns a result and the additional
  tests to be queued. A result refers to its test object; the reference is modelled by
  the test's \<open>name\<close>, so that the result of a test's own \<^verbatim>\<open>run\<close> can refer to
  that test. \<open>label\<close> is the text of \<^verbatim>\<open>str(test)\<close>.
\<close>

type_synonym test_ref = string

datatype test = Test
  (name: test_ref)
  (label: string)
  (check_unsupported: "py_exception + string option")
  (run: "py_exception + (test_ref TestResult \<times> test list)")
  (is_negative_test: "py_exception + bool")
  (check_broken: "py_exception + (string option \<times> string option)")

definition fixup_expected_failure ::
  "'t TestResult \<Rightarrow> string \<Rightarrow> string \<Rightarrow> 't TestResult" where
  "fixup_expected_failure result config bug =
     (case result of
        Failure t message \<Rightarrow> ExpectedFailure t message config bug
      | Success t \<Rightarrow> UnexpectedSuccess t config bug
      | _ \<Rightarrow> result)"

definition fixup_negative_test :: "'t TestResult \<Rightarrow> 't TestResult" where
  "fixup_negative_test result =
     (case result of
        Failure t message \<Rightarrow> Success t
      | Success t \<Rightarrow> Failure t ''negative test case succeeded''
      | _ \<Rightarrow> result)"

text \<open>The calls \<^verbatim>\<open>_run_test\<close> makes, in the order it makes them.\<close>

datatype call =
    SetStatus string
  | CallCheckUnsupported
  | CallRun
  | CallIsNegativeTest
  | CallCheckBroken

type_synonym RunTestResult = "string \<times> test_ref TestResult \<times> test list"

text \<open>
  The body of the \<^verbatim>\<open>try\<close> block of \<^verbatim>\<open>_run_test\<close>: the calls made and either
  the exception that left the block or the values of \<^verbatim>\<open>result\<close> and
  \<^verbatim>\<open>additional_tests\<close> at its end. A failing \<^verbatim>\<open>assert bug is not None\<close>
  raises AssertionError, an \<^verbatim>\<open>Exception\<close>.
\<close>

definition run_test_try ::
  "test \<Rightarrow> call list \<times> (py_exception + (test_ref TestResult \<times> test list))" where
  "run_test_try t =
     (case run t of
        Inl e \<Rightarrow> ([CallRun], Inl e)
      | Inr (result, additional_tests) \<Rightarrow>
          (case is_negative_test t of
             Inl e \<Rightarrow> ([CallRun, CallIsNegativeTest], Inl e)
           | Inr negative \<Rightarrow>
               (let result' = (if negative then fixup_negative_test result else result)
                in (case check_broken t of
                      Inl e \<Rightarrow> ([CallRun, CallIsNegativeTest, CallCheckBroken], Inl e)
                    | Inr (config, bug) \<Rightarrow>
                        ([CallRun, CallIsNegativeTest, CallCheckBroken],
                         (case config of
                            None \<Rightarrow> Inr (result', additional_tests)
                          | Some c \<Rightarrow>
                              (case bug of
                                 None \<Rightarrow> Inl (Exception ''AssertionError'')
                               | Some b \<Rightarrow>
                                   Inr (fixup_expected_failure result' c b,
                                        additional_tests))))))))"

text \<open>
  \<^verbatim>\<open>_run_test(worker, suite, test, obj_dir, dist_dir, test_filters)\<close>. The
  directories and filters are only handed on to \<^verbatim>\<open>test.run\<close>, whose outcome for
  them is the \<open>run\<close> field. The value is the list of calls made and either the
  exception that propagates to the caller or the returned triple.
\<close>

definition run_test :: "string \<Rightarrow> test \<Rightarrow> call list \<times> (py_exception + RunTestResult)" where
  "run_test suite t =
     (let status = [SetStatus (''Building '' @ label t), CallCheckUnsupported]
      in (case check_unsupported t of
            Inl e \<Rightarrow> (status, Inl e)
          | Inr (Some config) \<Rightarrow>
              (status, Inr (suite, Skipped (name t) (''test unsupported for '' @ config), []))
          | Inr None \<Rightarrow>
              (case run_test_try t of
                 (calls, Inr (result, additional_tests)) \<Rightarrow>
                   (status @ calls, Inr (suite, result, additional_tests))
               | (calls, Inl (Exception traceback)) \<Rightarrow>
                   (status @ calls, Inr (suite, Failure (name t) traceback, []))
               | (calls, Inl (BaseExceptionOnly traceback)) \<Rightarrow>
                   (status @ calls, Inl (BaseExceptionOnly traceback)))))"

subsection \<open>Sample tests\<close>

text \<open>A negative test whose build fails, as a negative test's build should.\<close>

definition negative_test :: test where
  "negative_test = Test ''build.neg'' ''build.neg [x86-None-new]'' (Inr None)
     (Inr (Failure ''build.neg'' ''clang: error'', [])) (Inr True) (Inr (None, None))"

text \<open>The same negative test, marked broken for x86 by its \<^verbatim>\<open>build_broken\<close> hook.\<close>

definition negative_broken_test :: test where
  "negative_broken_test = Test ''build.neg'' ''build.neg [x86-None-new]'' (Inr None)
     (Inr (Failure ''build.neg'' ''clang: error'', [])) (Inr True)
     (Inr (Some ''x86'', Some ''http://b/1''))"

text \<open>A test marked broken whose build succeeds and yields no further tests.\<close>

definition broken_test :: test where
  "broken_test = Test ''build.brk'' ''build.brk [x86-None-new]'' (Inr None)
     (Inr (Success ''build.brk'', [])) (Inr False) (Inr (Some ''x86'', Some ''http://b/2''))"

text \<open>A test unsupported for its configuration; its build would raise if it were run.\<close>

definition unsupported_test :: test where
  "unsupported_test = Test ''build.uns'' ''build.uns [x86-None-new]'' (Inr (Some ''x86''))
     (Inl (Exception ''RuntimeError: must not run'')) (Inr False) (Inr (None, None))"

text \<open>A test whose build raises: once an \<^verbatim>\<open>Exception\<close>, once a KeyboardInterrupt.\<close>

definition raising_test :: test where
  "raising_test = Test ''build.exc'' ''build.exc [x86-None-new]'' (Inr None)
     (Inl (Exception ''Traceback: OSError'')) (Inr False) (Inr (None, None))"

definition interrupted_test :: test where
  "interrupted_test = Test ''build.int'' ''build.int [x86-None-new]'' (Inr None)
     (Inl (BaseExceptionOnly ''Traceback: KeyboardInterrupt'')) (Inr False) (Inr (None, None))"

subsection \<open>Negative tests\<close>

text \<open>
  C3, as stated, at a negative test that is also marked broken: its build fails, and
  \<^verbatim>\<open>_run_test\<close> returns UnexpectedSuccess, not Success, because the broken-config
  reclassification runs on the inverted result.
\<close>

theorem negative_test_broken_counterexample:
  "is_negative_test negative_broken_test = Inr True
   \<and> run negative_broken_test = Inr (Failure ''build.neg'' ''clang: error'', [])
   \<and> snd (run_test ''build'' negative_broken_test)
       = Inr (''build'', UnexpectedSuccess ''build.neg'' ''x86'' ''http://b/1'', [])
   \<and> snd (run_test ''build'' negative_broken_test)
       \<noteq> Inr (''build'', Success ''build.neg'', [])"
  by (simp add: negative_broken_test_def run_test_def run_test_try_def
      fixup_negative_test_def fixup_expected_failure_def)

text \<open>
  C3 (amended): \<^verbatim>\<open>_fixup_negative_test\<close> maps a Failure to Success for the same
  test and a Success to Failure with the message "negative test case succeeded". In
  \<^verbatim>\<open>_run_test\<close>, for a supported test whose \<^verbatim>\<open>run\<close> returns and whose
  \<^verbatim>\<open>check_broken\<close> returns no configuration, the returned result is the inverted
  one exactly when \<^verbatim>\<open>is_negative_test()\<close> holds, and the result of \<^verbatim>\<open>run\<close>
  unchanged otherwise: a negative test whose build returns Failure yields Success, one
  whose build returns Success yields that Failure.
\<close>

theorem fixup_negative_test_run_test:
  "fixup_negative_test (Failure r m) = Success r
   \<and> fixup_negative_test (Success r) = Failure r ''negative test case succeeded''
   \<and> (check_unsupported t = Inr None \<and> run t = Inr (result, more)
        \<and> is_negative_test t = Inr negative \<and> check_broken t = Inr (None, bug)
        \<longrightarrow> snd (run_test suite t)
              = Inr (suite, if negative then fixup_negative_test result else result, more))"
  by (simp add: fixup_negative_test_def run_test_def run_test_try_def)

theorem fixup_negative_test_run_test_witness:
  "check_unsupported negative_test = Inr None
   \<and> run negative_test = Inr (Failure ''build.neg'' ''clang: error'', [])
   \<and> is_negative_test negative_test = Inr True
   \<and> check_broken negative_test = Inr (None, None)
   \<and> snd (run_test ''build'' negative_test) = Inr (''build'', Success ''build.neg'', [])"
  using fixup_negative_test_run_test [of "''build.neg''" "''clang: error''" negative_test
      "Failure ''build.neg'' ''clang: error''" "[]" True None "''build''"]
  by (simp add: negative_test_def)

subsection \<open>Broken configurations\<close>

text \<open>
  C4: \<^verbatim>\<open>_fixup_expected_failure\<close> maps Failure to ExpectedFailure and Success to
  UnexpectedSuccess, each tagged with the configuration and the bug, and leaves
  Skipped, ExpectedFailure and UnexpectedSuccess as they are. In \<^verbatim>\<open>_run_test\<close>,
  when \<^verbatim>\<open>check_broken\<close> returns a configuration and a bug, it is applied to the
  result after the negative-test inversion; when \<^verbatim>\<open>check_broken\<close> returns no
  configuration, the result after the inversion is returned unchanged.
\<close>

theorem fixup_expected_failure_run_test:
  "fixup_expected_failure (Failure r m) config bug = ExpectedFailure r m config bug
   \<and> fixup_expected_failure (Success r) config bug = UnexpectedSuccess r config bug
   \<and> fixup_expected_failure (Skipped r m) config bug = Skipped r m
   \<and> fixup_expected_failure (ExpectedFailure r m c b) config bug = ExpectedFailure r m c b
   \<and> fixup_expected_failure (UnexpectedSuccess r c b) config bug = UnexpectedSuccess r c b
   \<and> (check_unsupported t = Inr None \<and> run t = Inr (result, more)
        \<and> is_negative_test t = Inr negative
        \<longrightarrow> (check_broken t = Inr (Some config, Some bug)
              \<longrightarrow> snd (run_test suite t)
                    = Inr (suite,
                           fixup_expected_failure
                             (if negative then fixup_negative_test result else result)
                             config bug,
                           more))
           \<and> (check_broken t = Inr (None, nobug)
              \<longrightarrow> snd (run_test suite t)
                    = Inr (suite, if negative then fixup_negative_test result else result,
                           more)))"
proof -
  have reclassify:
    "fixup_expected_failure (Failure r m) config bug = ExpectedFailure r m config bug"
    "fixup_expected_failure (Success r) config bug = UnexpectedSuccess r config bug"
    "fixup_expected_failure (Skipped r m) config bug = Skipped r m"
    "fixup_expected_failure (ExpectedFailure r m c b) config bug = ExpectedFailure r m c b"
    "fixup_expected_failure (UnexpectedSuccess r c b) config bug = UnexpectedSuccess r c b"
    by (simp_all add: fixup_expected_failure_def)
  have applied: "snd (run_test suite t)
      = Inr (suite,
             fixup_expected_failure
               (if negative then fixup_negative_test result else result) config bug,
             more)"
    if "check_unsupported t = Inr None" "run t = Inr (result, more)"
      "is_negative_test t = Inr negative" "check_broken t = Inr (Some config, Some bug)"
    using that by (simp add: run_test_def run_test_try_def)
  have passed: "snd (run_test suite t)
      = Inr (suite, if negative then fixup_negative_test result else result, more)"
    if "check_unsupported t = Inr None" "run t = Inr (result, more)"
      "is_negative_test t = Inr negative" "check_broken t = Inr (None, nobug)"
    using that by (simp add: run_test_def run_test_try_def)
  from reclassify applied passed show ?thesis by blast
qed

theorem fixup_expected_failure_run_test_witness:
  "check_unsupported broken_test = Inr None
   \<and> run broken_test = Inr (Success ''build.brk'', [])
   \<and> is_negative_test broken_test = Inr False
   \<and> check_broken broken_test = Inr (Some ''x86'', Some ''http://b/2'')
   \<and> snd (run_test ''build'' broken_test)
       = Inr (''build'', UnexpectedSuccess ''build.brk'' ''x86'' ''http://b/2'', [])"
  using fixup_expected_failure_run_test [where t = broken_test and config = "''x86''"
      and bug = "''http://b/2''" and result = "Success ''build.brk''" and more = "[]"
      and negative = False and suite = "''build''"]
  by (simp add: broken_test_def fixup_expected_failure_def)

subsection \<open>Unsupported configurations\<close>

text \<open>
  C5: when \<^verbatim>\<open>check_unsupported()\<close> returns a configuration C, \<^verbatim>\<open>_run_test\<close>
  returns Skipped with the message "test unsupported for C" and no additional tests,
  and the only calls it has made are the status update and \<^verbatim>\<open>check_unsupported\<close>:
  \<^verbatim>\<open>test.run\<close> is not among them.
\<close>

theorem run_test_unsupported:
  "check_unsupported t = Inr (Some config) \<Longrightarrow>
     run_test suite t =
       ([SetStatus (''Building '' @ label t), CallCheckUnsupported],
        Inr (suite, Skipped (name t) (''test unsupported for '' @ config), []))
     \<and> CallRun \<notin> set (fst (run_test suite t))"
  by (simp add: run_test_def)

theorem run_test_unsupported_witness:
  "check_unsupported unsupported_test = Inr (Some ''x86'')
   \<and> snd (run_test ''build'' unsupported_test)
       = Inr (''build'', Skipped ''build.uns'' ''test unsupported for x86'', [])
   \<and> CallRun \<notin> set (fst (run_test ''build'' unsupported_test))"
  using run_test_unsupported [of unsupported_test "''x86''" "''build''"]
  by (simp add: unsupported_test_def)

subsection \<open>Exceptions of the build action\<close>

text \<open>
  C7, as stated, at a test whose build is interrupted: KeyboardInterrupt is not an
  \<^verbatim>\<open>Exception\<close>, the \<^verbatim>\<open>except Exception\<close> clause lets it pass, and it leaves
  \<^verbatim>\<open>_run_test\<close> as an exception.
\<close>

theorem run_test_interrupt_counterexample:
  "check_unsupported interrupted_test = Inr None
   \<and> run interrupted_test = Inl (BaseExceptionOnly ''Traceback: KeyboardInterrupt'')
   \<and> snd (run_test ''build'' interrupted_test)
       = Inl (BaseExceptionOnly ''Traceback: KeyboardInterrupt'')"
  by (simp add: interrupted_test_def run_test_def run_test_try_def)

text \<open>
  C7 (amended): for every supported test, an exception that is an instance of
  \<^verbatim>\<open>Exception\<close>, raised by the test's \<^verbatim>\<open>run\<close> action inside \<^verbatim>\<open>_run_test\<close>, is
  caught: \<^verbatim>\<open>_run_test\<close> returns the suite, a Failure for the test carrying the
  traceback text, and no additional tests.
\<close>

theorem run_test_exception:
  "check_unsupported t = Inr None \<Longrightarrow> run t = Inl (Exception traceback) \<Longrightarrow>
     snd (run_test suite t) = Inr (suite, Failure (name t) traceback, [])"
  by (simp add: run_test_def run_test_try_def)

theorem run_test_exception_witness:
  "check_unsupported raising_test = Inr None
   \<and> run raising_test = Inl (Exception ''Traceback: OSError'')
   \<and> snd (run_test ''build'' raising_test)
       = Inr (''build'', Failure ''build.exc'' ''Traceback: OSError'', [])"
  using run_test_exception [of raising_test "''Traceback: OSError''" "''build''"]
  by (simp add: raising_test_def)

section \<open>Python strings and integers\<close>

text \<open>
  The exceptions the modelled functions raise themselves. \<open>SystemExit\<close> carries the
  argument of \<^verbatim>\<open>sys.exit\<close>: a message (printed, exit status 1) or a status.
\<close>

datatype error =
    ValueError
  | RuntimeError string
  | KeyError string
  | SystemExit "string + int"

text \<open>\<^verbatim>\<open>str(n)\<close> for an int: decimal digits, most significant first, with a sign.\<close>

definition digit_char :: "nat \<Rightarrow> char" where
  "digit_char d = char_of (48 + d)"

fun str_nat :: "nat \<Rightarrow> string" where
  "str_nat n = (if n < 10 then [digit_char n] else str_nat (n div 10) @ [digit_char (n mod 10)])"

declare str_nat.simps [simp del]

definition str_int :: "int \<Rightarrow> string" where
  "str_int i = (if i < 0 then CHR ''-'' # str_nat (nat (- i)) else str_nat (nat i))"

text \<open>
  \<^verbatim>\<open>int(s)\<close> for a string: surrounding whitespace is stripped, one sign may lead,
  and the digits may be grouped by single underscores. Anything else is a ValueError.
\<close>

definition is_space :: "char \<Rightarrow> bool" where
  "is_space c = (of_char c \<in> set [9, 10, 11, 12, 13, 28, 29, 30, 31, 32 :: nat])"

definition strip :: "string \<Rightarrow> string" where
  "strip s = rev (dropWhile is_space (rev (dropWhile is_space s)))"

definition is_digit :: "char \<Rightarrow> bool" where
  "is_digit c = (48 \<le> (of_char c :: nat) \<and> (of_char c :: nat) \<le> 57)"

definition digit_val :: "char \<Rightarrow> nat" where
  "digit_val c = of_char c - 48"

fun digits_val :: "nat \<Rightarrow> string \<Rightarrow> nat option" where
  "digits_val acc [] = Some acc"
| "digits_val acc (c # cs) =
     (if is_digit c then digits_val (10 * acc + digit_val c) cs
      else if c = CHR ''_'' then
        (case cs of
           [] \<Rightarrow> None
         | d # ds \<Rightarrow> if is_digit d then digits_val (10 * acc + digit_val d) ds else None)
      else None)"

definition int_digits :: "string \<Rightarrow> nat option" where
  "int_digits s =
     (case s of
        [] \<Rightarrow> None
      | c # cs \<Rightarrow> if is_digit c then digits_val (digit_val c) cs else None)"

definition py_int :: "string \<Rightarrow> error + int" where
  "py_int s =
     (let t = strip s;
          parsed = (case t of
                      [] \<Rightarrow> None
                    | c # cs \<Rightarrow>
                        if c = CHR ''-'' then map_option (\<lambda>n. - int n) (int_digits cs)
                        else if c = CHR ''+'' then map_option int (int_digits cs)
                        else map_option int (int_digits t))
      in case parsed of None \<Rightarrow> Inl ValueError | Some i \<Rightarrow> Inr i)"

text \<open>
  \<^verbatim>\<open>s.partition(sep)\<close> and \<^verbatim>\<open>s.split(sep)\<close> for a separator of one character,
  and \<^verbatim>\<open>s.startswith(p)\<close>.
\<close>

definition partition_on :: "char \<Rightarrow> string \<Rightarrow> string \<times> string \<times> string" where
  "partition_on sep s =
     (case dropWhile (\<lambda>c. c \<noteq> sep) s of
        [] \<Rightarrow> (s, [], [])
      | c # after \<Rightarrow> (takeWhile (\<lambda>c. c \<noteq> sep) s, [c], after))"

fun split_on :: "char \<Rightarrow> string \<Rightarrow> string list" where
  "split_on sep [] = [[]]"
| "split_on sep (c # cs) =
     (if c = sep then [] # split_on sep cs
      else (case split_on sep cs of
              [] \<Rightarrow> [[c]]
            | w # ws \<Rightarrow> (c # w) # ws))"

definition startswith :: "string \<Rightarrow> string \<Rightarrow> bool" where
  "startswith s p = (take (length p) s = p)"

section \<open>Build configurations (ndk/test/spec.py)\<close>

datatype CMakeToolchainFile = Legacy | Default

fun toolchain_file_value :: "CMakeToolchainFile \<Rightarrow> string" where
  "toolchain_file_value Legacy = ''legacy''"
| "toolchain_file_value Default = ''new''"

text \<open>\<^verbatim>\<open>CMakeToolchainFile(value)\<close>: the member with that value, or ValueError.\<close>

definition CMakeToolchainFile_of :: "string \<Rightarrow> error + CMakeToolchainFile" where
  "CMakeToolchainFile_of v =
     (if v = ''legacy'' then Inr Legacy else if v = ''new'' then Inr Default
      else Inl ValueError)"

text \<open>
  \<^verbatim>\<open>Abi\<close> is a name for \<^verbatim>\<open>str\<close> (\<^verbatim>\<open>Abi(s)\<close> returns \<^verbatim>\<open>s\<close>), so an ABI is a
  string here.
\<close>

type_synonym Abi = string

record BuildConfiguration =
  abi :: Abi
  api :: "int option"
  toolchain_file :: CMakeToolchainFile

definition str_api :: "int option \<Rightarrow> string" where
  "str_api a = (case a of None \<Rightarrow> ''None'' | Some i \<Rightarrow> str_int i)"

text \<open>\<^verbatim>\<open>BuildConfiguration.__str__\<close>: the three parts joined by dashes.\<close>

definition str_config :: "BuildConfiguration \<Rightarrow> string" where
  "str_config c = abi c @ ''-'' @ str_api (api c) @ ''-'' @ toolchain_file_value (toolchain_file c)"

text \<open>
  \<^verbatim>\<open>BuildConfiguration.from_string\<close>. Unpacking \<^verbatim>\<open>rest.split("-")\<close> into two
  names raises ValueError unless the list has exactly two elements.
\<close>

definition from_string :: "string \<Rightarrow> error + BuildConfiguration" where
  "from_string config_string =
     (case partition_on CHR ''-'' config_string of
        (abi0, _, rest0) \<Rightarrow>
          (let (abi1, rest) =
                 (if abi0 = ''armeabi'' \<and> startswith rest0 ''v7a-''
                  then (abi0 @ ''-v7a'', snd (snd (partition_on CHR ''-'' rest0)))
                  else if abi0 = ''arm64'' \<and> startswith rest0 ''v8a-''
                  then (abi0 @ ''-v8a'', snd (snd (partition_on CHR ''-'' rest0)))
                  else (abi0, rest0))
           in (case split_on CHR ''-'' rest of
                 [api_str, toolchain_file_str] \<Rightarrow>
                   (case py_int api_str of
                      Inl e \<Rightarrow> Inl e
                    | Inr api_level \<Rightarrow>
                        (case CMakeToolchainFile_of toolchain_file_str of
                           Inl e \<Rightarrow> Inl e
                         | Inr tf \<Rightarrow>
                             Inr \<lparr>abi = abi1, api = Some api_level, toolchain_file = tf\<rparr>))
               | _ \<Rightarrow> Inl ValueError)))"

text \<open>Sample configurations: an ABI name with a dash, and a negative API level.\<close>

definition v7a_config :: BuildConfiguration where
  "v7a_config = \<lparr>abi = ''armeabi-v7a'', api = Some 21, toolchain_file = Default\<rparr>"

definition negative_api_config :: BuildConfiguration where
  "negative_api_config = \<lparr>abi = ''x86'', api = Some (- 1), toolchain_file = Default\<rparr>"

subsection \<open>Printing and parsing integers\<close>

lemma is_digit_digit_char: "d < 10 \<Longrightarrow> is_digit (digit_char d)"
  by (simp add: is_digit_def digit_char_def)

lemma digit_val_digit_char: "d < 10 \<Longrightarrow> digit_val (digit_char d) = d"
  by (simp add: digit_val_def digit_char_def)

lemma str_nat_digits: "\<forall>c\<in>set (str_nat n). is_digit c"
  by (induction n rule: str_nat.induct) (subst str_nat.simps, simp add: is_digit_digit_char)

lemma str_nat_nonempty: "str_nat n \<noteq> []"
  by (subst str_nat.simps) simp

lemma digits_val_foldl:
  "\<forall>c\<in>set ds. is_digit c \<Longrightarrow>
     digits_val acc ds = Some (foldl (\<lambda>a c. 10 * a + digit_val c) acc ds)"
  by (induction ds arbitrary: acc) simp_all

lemma foldl_str_nat: "foldl (\<lambda>a c. 10 * a + digit_val c) 0 (str_nat n) = n"
proof (induction n rule: str_nat.induct)
  case (1 n)
  show ?case
  proof (cases "n < 10")
    case True
    then show ?thesis by (subst str_nat.simps) (simp add: digit_val_digit_char)
  next
    case False
    with 1 show ?thesis by (subst str_nat.simps) (simp add: digit_val_digit_char)
  qed
qed

lemma int_digits_str_nat: "int_digits (str_nat n) = Some n"
proof -
  obtain c cs where s: "str_nat n = c # cs"
    using str_nat_nonempty by (cases "str_nat n") auto
  have dig: "\<forall>x\<in>set (c # cs). is_digit x" using str_nat_digits [of n] s by simp
  have "digits_val (digit_val c) cs = Some (foldl (\<lambda>a c. 10 * a + digit_val c) 0 (c # cs))"
    using dig by (simp add: digits_val_foldl)
  then show ?thesis using s dig foldl_str_nat [of n] by (simp add: int_digits_def)
qed

lemma digit_not_space: "is_digit c \<Longrightarrow> \<not> is_space c"
  by (auto simp: is_digit_def is_space_def)

lemma dropWhile_hd: "xs \<noteq> [] \<Longrightarrow> \<not> P (hd xs) \<Longrightarrow> dropWhile P xs = xs"
  by (cases xs) auto

lemma strip_id:
  assumes "s \<noteq> []" "\<not> is_space (hd s)" "\<not> is_space (last s)"
  shows "strip s = s"
proof -
  have "dropWhile is_space s = s" using assms by (simp add: dropWhile_hd)
  moreover have "dropWhile is_space (rev s) = rev s"
    using assms by (simp add: dropWhile_hd hd_rev)
  ultimately show ?thesis by (simp add: strip_def)
qed

lemma str_nat_hd_digit: "is_digit (hd (str_nat n))"
  using str_nat_digits [of n] str_nat_nonempty [of n] by (cases "str_nat n") auto

lemma str_nat_last_digit: "is_digit (last (str_nat n))"
  using str_nat_digits [of n] str_nat_nonempty [of n] by (meson last_in_set)

lemma py_int_str_nat: "py_int (str_nat n) = Inr (int n)"
proof -
  obtain c cs where s: "str_nat n = c # cs"
    using str_nat_nonempty by (cases "str_nat n") auto
  have c: "is_digit c" using str_nat_hd_digit [of n] s by simp
  then have sign: "c \<noteq> CHR ''-''" "c \<noteq> CHR ''+''" by (auto simp: is_digit_def)
  have "strip (str_nat n) = str_nat n"
    using str_nat_nonempty str_nat_hd_digit str_nat_last_digit
    by (intro strip_id) (auto dest: digit_not_space)
  then show ?thesis
    using s sign int_digits_str_nat [of n] by (simp add: py_int_def)
qed

lemma py_int_str_int: "py_int (str_int i) = Inr i"
proof (cases "i < 0")
  case False
  then show ?thesis using py_int_str_nat [of "nat i"] by (simp add: str_int_def)
next
  case True
  have ns: "\<not> is_space CHR ''-''" by (simp add: is_space_def)
  have "strip (CHR ''-'' # str_nat (nat (- i))) = CHR ''-'' # str_nat (nat (- i))"
    using str_nat_nonempty str_nat_last_digit ns
    by (intro strip_id) (auto dest: digit_not_space)
  then show ?thesis
    using True int_digits_str_nat [of "nat (- i)"] by (simp add: py_int_def str_int_def)
qed

lemma split_on_none: "sep \<notin> set w \<Longrightarrow> split_on sep w = [w]"
  by (induction w) auto

lemma split_on_first: "sep \<notin> set w \<Longrightarrow> split_on sep (w @ sep # r) = w # split_on sep r"
proof (induction w)
  case Nil
  then show ?case by simp
next
  case (Cons a w)
  then show ?case by auto
qed

lemma partition_on_first:
  "sep \<notin> set w \<Longrightarrow> partition_on sep (w @ sep # r) = (w, [sep], r)"
proof -
  assume w: "sep \<notin> set w"
  then have "dropWhile (\<lambda>c. c \<noteq> sep) (w @ sep # r) = sep # r"
    by (induction w) auto
  moreover from w have "takeWhile (\<lambda>c. c \<noteq> sep) (w @ sep # r) = w"
    by (induction w) auto
  ultimately show ?thesis by (simp add: partition_on_def)
qed

lemma dash_not_digit: "is_digit c \<Longrightarrow> c \<noteq> CHR ''-''"
  by (auto simp: is_digit_def)

lemma str_nat_no_dash: "CHR ''-'' \<notin> set (str_nat n)"
  using str_nat_digits [of n] dash_not_digit by blast

lemma toolchain_file_value_no_dash: "CHR ''-'' \<notin> set (toolchain_file_value tf)"
  by (cases tf) simp_all

lemma CMakeToolchainFile_of_value: "CMakeToolchainFile_of (toolchain_file_value tf) = Inr tf"
  by (cases tf) (simp_all add: CMakeToolchainFile_of_def)

lemma from_string_tail:
  "(case split_on CHR ''-'' (str_nat n @ CHR ''-'' # toolchain_file_value tf) of
      [api_str, toolchain_file_str] \<Rightarrow>
        (case py_int api_str of
           Inl e \<Rightarrow> Inl e
         | Inr api_level \<Rightarrow>
             (case CMakeToolchainFile_of toolchain_file_str of
                Inl e \<Rightarrow> Inl e
              | Inr tf' \<Rightarrow> Inr \<lparr>abi = a, api = Some api_level, toolchain_file = tf'\<rparr>))
    | _ \<Rightarrow> Inl ValueError)
   = Inr \<lparr>abi = a, api = Some (int n), toolchain_file = tf\<rparr>"
  by (simp add: split_on_first [OF str_nat_no_dash]
      split_on_none [OF toolchain_file_value_no_dash] py_int_str_nat CMakeToolchainFile_of_value)

lemma not_startswith_digit:
  "\<not> startswith (str_nat n @ r) (CHR ''v'' # p)"
proof -
  obtain c cs where s: "str_nat n = c # cs"
    using str_nat_nonempty by (cases "str_nat n") auto
  have "is_digit c" using str_nat_hd_digit [of n] s by simp
  then have "c \<noteq> CHR ''v''" by (auto simp: is_digit_def)
  then show ?thesis using s by (simp add: startswith_def)
qed

subsection \<open>Parsing the string form\<close>

text \<open>
  C10, as stated, at a configuration with API level -1: the string form is
  "x86--1-new", the sign adds a dash, \<^verbatim>\<open>rest.split("-")\<close> has three elements and
  the unpacking raises ValueError.
\<close>

theorem from_string_negative_api_counterexample:
  "str_config negative_api_config = ''x86--1-new''
   \<and> from_string (str_config negative_api_config) = Inl ValueError"
  by code_simp

text \<open>
  C10 (amended): for every BuildConfiguration whose API level is a non-negative integer
  and whose ABI is armeabi-v7a, arm64-v8a or a name without a dash (as x86, x86_64 and
  riscv64 are), \<^verbatim>\<open>from_string(str(c))\<close> returns \<open>c\<close>.
\<close>

theorem from_string_str:
  assumes "api c = Some i" and "0 \<le> i"
    and "abi c = ''armeabi-v7a'' \<or> abi c = ''arm64-v8a'' \<or> CHR ''-'' \<notin> set (abi c)"
  shows "from_string (str_config c) = Inr c"
proof -
  define n where "n = nat i"
  define tail where "tail = str_nat n @ CHR ''-'' # toolchain_file_value (toolchain_file c)"
  have str: "str_config c = abi c @ CHR ''-'' # tail"
    using assms(1,2) by (simp add: str_config_def str_api_def str_int_def tail_def n_def)
  have c: "c = \<lparr>abi = abi c, api = Some (int n), toolchain_file = toolchain_file c\<rparr>"
    using assms(1,2) by (simp add: n_def)
  from assms(3) consider (v7a) "abi c = ''armeabi-v7a''" | (v8a) "abi c = ''arm64-v8a''"
    | (plain) "CHR ''-'' \<notin> set (abi c)" by blast
  then have "from_string (abi c @ CHR ''-'' # tail)
      = Inr \<lparr>abi = abi c, api = Some (int n), toolchain_file = toolchain_file c\<rparr>"
  proof cases
    case v7a
    have "partition_on CHR ''-'' (''armeabi-v7a'' @ CHR ''-'' # tail)
        = (''armeabi'', ''-'', ''v7a'' @ CHR ''-'' # tail)"
      using partition_on_first [of "CHR ''-''" "''armeabi''" "''v7a'' @ CHR ''-'' # tail"] by simp
    moreover have "partition_on CHR ''-'' (''v7a'' @ CHR ''-'' # tail) = (''v7a'', ''-'', tail)"
      using partition_on_first [of "CHR ''-''" "''v7a''" tail] by simp
    ultimately show ?thesis
      unfolding v7a from_string_def
      using from_string_tail [where n = n and tf = "toolchain_file c" and a = "''armeabi-v7a''"]
      by (simp add: startswith_def tail_def)
  next
    case v8a
    have "partition_on CHR ''-'' (''arm64-v8a'' @ CHR ''-'' # tail)
        = (''arm64'', ''-'', ''v8a'' @ CHR ''-'' # tail)"
      using partition_on_first [of "CHR ''-''" "''arm64''" "''v8a'' @ CHR ''-'' # tail"] by simp
    moreover have "partition_on CHR ''-'' (''v8a'' @ CHR ''-'' # tail) = (''v8a'', ''-'', tail)"
      using partition_on_first [of "CHR ''-''" "''v8a''" tail] by simp
    ultimately show ?thesis
      unfolding v8a from_string_def
      using from_string_tail [where n = n and tf = "toolchain_file c" and a = "''arm64-v8a''"]
      by (simp add: startswith_def tail_def)
  next
    case plain
    have "partition_on CHR ''-'' (abi c @ CHR ''-'' # tail) = (abi c, ''-'', tail)"
      using plain by (rule partition_on_first)
    moreover have "\<not> startswith tail ''v7a-''" "\<not> startswith tail ''v8a-''"
      unfolding tail_def using not_startswith_digit by simp_all
    ultimately show ?thesis
      unfolding from_string_def
      using from_string_tail [where n = n and tf = "toolchain_file c" and a = "abi c"]
      by (simp add: tail_def)
  qed
  then show ?thesis using str c by simp
qed

theorem from_string_str_witness:
  "api v7a_config = Some 21 \<and> abi v7a_config = ''armeabi-v7a''
   \<and> str_config v7a_config = ''armeabi-v7a-21-new''
   \<and> from_string ''armeabi-v7a-21-new'' = Inr v7a_config"
proof -
  have str: "str_config v7a_config = ''armeabi-v7a-21-new''" by code_simp
  have "from_string (str_config v7a_config) = Inr v7a_config"
    using from_string_str [of v7a_config 21] by (simp add: v7a_config_def)
  then show ?thesis using str by (simp add: v7a_config_def)
qed

section \<open>Choosing the device API level (ndk/test/builder.py)\<close>

text \<open>
  The \<^verbatim>\<open>devices\<close> dictionary as an association list from API level to the ABIs of
  the devices at that level; \<open>map_of\<close> is the lookup \<^verbatim>\<open>devices[api]\<close>.
\<close>

type_synonym devices = "(int \<times> Abi list) list"

text \<open>The \<^verbatim>\<open>for\<close> loop of \<^verbatim>\<open>_desired_api_level\<close> over the sorted keys.\<close>

fun desired_api_level_loop :: "int \<Rightarrow> Abi \<Rightarrow> devices \<Rightarrow> int list \<Rightarrow> error + int" where
  "desired_api_level_loop min_api a ds [] =
     Inl (RuntimeError (''Desired API level >= '' @ str_int min_api @ '' not found for '' @ a))"
| "desired_api_level_loop min_api a ds (k # ks) =
     (if k < min_api then desired_api_level_loop min_api a ds ks
      else (case map_of ds k of
              None \<Rightarrow> Inl (KeyError (str_int k))
            | Some abis \<Rightarrow>
                if a \<in> set abis then Inr k else desired_api_level_loop min_api a ds ks))"

definition desired_api_level :: "int \<Rightarrow> Abi \<Rightarrow> devices \<Rightarrow> error + int" where
  "desired_api_level min_api a ds = desired_api_level_loop min_api a ds (sort (map fst ds))"

text \<open>
  What the claim asks of the chosen level: it is at least \<open>min_api\<close>, it is a key of
  the dictionary, and the ABI list stored under it holds the ABI.
\<close>

definition supports :: "int \<Rightarrow> Abi \<Rightarrow> devices \<Rightarrow> int \<Rightarrow> bool" where
  "supports min_api a ds k =
     (min_api \<le> k \<and> (case map_of ds k of None \<Rightarrow> False | Some abis \<Rightarrow> a \<in> set abis))"

definition sample_devices :: devices where
  "sample_devices =
     [(30, [''x86'']), (19, [''x86'']), (24, [''arm64-v8a'']), (28, [''x86'', ''x86_64''])]"

lemma desired_api_level_loop_found:
  "sorted ks \<Longrightarrow> set ks \<subseteq> dom (map_of ds) \<Longrightarrow>
   (desired_api_level_loop min_api a ds ks = Inr k) =
   (k \<in> set ks \<and> supports min_api a ds k
    \<and> (\<forall>k'\<in>set ks. supports min_api a ds k' \<longrightarrow> k \<le> k'))"
proof (induction ks)
  case Nil
  then show ?case by simp
next
  case (Cons x xs)
  then obtain abis where abis: "map_of ds x = Some abis" by auto
  from Cons.prems have le: "\<forall>y\<in>set xs. x \<le> y" and sorted: "sorted xs"
    and sub: "set xs \<subseteq> dom (map_of ds)" by auto
  note IH = Cons.IH [OF sorted sub]
  show ?case
  proof (cases "supports min_api a ds x")
    case True
    then show ?thesis using abis le by (auto simp: supports_def)
  next
    case False
    then have "desired_api_level_loop min_api a ds (x # xs)
        = desired_api_level_loop min_api a ds xs"
      using abis by (auto simp: supports_def)
    then show ?thesis using IH False by auto
  qed
qed

lemma desired_api_level_loop_error:
  "set ks \<subseteq> dom (map_of ds) \<Longrightarrow>
   (desired_api_level_loop min_api a ds ks = Inl e) =
   (e = RuntimeError (''Desired API level >= '' @ str_int min_api @ '' not found for '' @ a)
    \<and> (\<forall>k\<in>set ks. \<not> supports min_api a ds k))"
proof (induction ks)
  case Nil
  then show ?case by auto
next
  case (Cons x xs)
  then obtain abis where abis: "map_of ds x = Some abis" by auto
  from Cons have IH: "(desired_api_level_loop min_api a ds xs = Inl e) =
   (e = RuntimeError (''Desired API level >= '' @ str_int min_api @ '' not found for '' @ a)
    \<and> (\<forall>k\<in>set xs. \<not> supports min_api a ds k))" by simp
  show ?case using abis IH by (auto simp: supports_def)
qed

lemma supports_key: "supports min_api a ds k \<Longrightarrow> k \<in> set (sort (map fst ds))"
  by (auto simp: supports_def split: option.splits dest: map_of_SomeD intro: rev_image_eqI)

text \<open>
  C9: \<^verbatim>\<open>_desired_api_level\<close> returns \<open>k\<close> exactly when \<open>k\<close> is the smallest key
  of \<open>devices\<close> that is at least \<open>min_api\<close> and whose ABI list contains the ABI; it
  raises the RuntimeError exactly when no key qualifies; and it raises nothing else.
\<close>

theorem desired_api_level_least:
  "(desired_api_level min_api a ds = Inr k
      \<longleftrightarrow> supports min_api a ds k \<and> (\<forall>k'. supports min_api a ds k' \<longrightarrow> k \<le> k'))
   \<and> (desired_api_level min_api a ds
        = Inl (RuntimeError (''Desired API level >= '' @ str_int min_api @ '' not found for '' @ a))
      \<longleftrightarrow> (\<forall>k'. \<not> supports min_api a ds k'))
   \<and> (\<forall>e. desired_api_level min_api a ds = Inl e
        \<longrightarrow> e = RuntimeError (''Desired API level >= '' @ str_int min_api @ '' not found for '' @ a))"
proof -
  have keys: "set (sort (map fst ds)) \<subseteq> dom (map_of ds)"
    by (simp add: dom_map_of_conv_image_fst)
  have srt: "sorted (sort (map fst ds))" by simp
  show ?thesis
    unfolding desired_api_level_def
      desired_api_level_loop_found [OF srt keys]
      desired_api_level_loop_error [OF keys]
    using supports_key by blast
qed

theorem desired_api_level_least_witness:
  "desired_api_level 21 ''x86'' sample_devices = Inr 28
   \<and> supports 21 ''x86'' sample_devices 28
   \<and> \<not> supports 21 ''x86'' sample_devices 24
   \<and> desired_api_level 31 ''x86'' sample_devices
       = Inl (RuntimeError ''Desired API level >= 31 not found for x86'')"
proof -
  have found: "desired_api_level 21 ''x86'' sample_devices = Inr 28"
    by code_simp
  have none: "desired_api_level 31 ''x86'' sample_devices
       = Inl (RuntimeError ''Desired API level >= 31 not found for x86'')"
    by code_simp
  from found desired_api_level_least [of 21 "''x86''" sample_devices 28]
  have "supports 21 ''x86'' sample_devices 28"
    and "\<forall>k'. supports 21 ''x86'' sample_devices k' \<longrightarrow> 28 \<le> k'" by simp_all
  then show ?thesis using found none by force
qed

section \<open>Selecting the modules to build (ndk/checkbuild.py)\<close>

text \<open>
  A module of \<^verbatim>\<open>ndk.builds\<close>, as far as the selection reads it: its \<^verbatim>\<open>name\<close>
  (field \<open>mod_name\<close>) and its \<^verbatim>\<open>deps\<close>, a set of names, listed in the order the
  \<^verbatim>\<open>for\<close> loop iterates it.
\<close>

record Module =
  mod_name :: string
  deps :: "string list"

text \<open>
  \<^verbatim>\<open>NAMES_TO_MODULES = {m.name: m for m in ALL_MODULES}\<close>: of two modules with one
  name the later one stays.
\<close>

definition NAMES_TO_MODULES :: "Module list \<Rightarrow> string \<Rightarrow> Module option" where
  "NAMES_TO_MODULES all_modules = map_of (map (\<lambda>m. (mod_name m, m)) (rev all_modules))"

text \<open>
  The three sets \<^verbatim>\<open>_get_transitive_module_deps\<close> updates in place: \<^verbatim>\<open>deps\<close>,
  \<^verbatim>\<open>unknown_deps\<close> and \<^verbatim>\<open>seen\<close>.
\<close>

type_synonym closure = "Module set \<times> string set \<times> Module set"

text \<open>
  \<^verbatim>\<open>_get_transitive_module_deps\<close> and its \<^verbatim>\<open>for\<close> loop over \<^verbatim>\<open>module.deps\<close>.
  The recursive call sits inside the loop, so the loop continues in the state the call
  leaves behind.
\<close>

function transitive_module_deps :: "Module list \<Rightarrow> Module \<Rightarrow> closure \<Rightarrow> closure"
  and transitive_module_deps_loop :: "Module list \<Rightarrow> string list \<Rightarrow> closure \<Rightarrow> closure" where
  "transitive_module_deps all_modules m (ds, unknown_deps, seen) =
     transitive_module_deps_loop all_modules (deps m) (ds, unknown_deps, insert m seen)"
| "transitive_module_deps_loop all_modules [] st = st"
| "transitive_module_deps_loop all_modules (n # ns) (ds, unknown_deps, seen) =
     (case NAMES_TO_MODULES all_modules n of
        None \<Rightarrow> transitive_module_deps_loop all_modules ns (ds, insert n unknown_deps, seen)
      | Some dep \<Rightarrow>
          if dep \<in> seen then transitive_module_deps_loop all_modules ns (ds, unknown_deps, seen)
          else transitive_module_deps_loop all_modules ns
                 (transitive_module_deps all_modules dep (insert dep ds, unknown_deps, seen)))"
  by pat_completeness auto

text \<open>
  Termination: a recursive call is made only for a module of the registry that is not
  yet seen, and no call forgets a seen module.
\<close>

lemma seen_grows:
  "transitive_module_deps_transitive_module_deps_loop_dom (Inl (all_modules, m, st)) \<Longrightarrow>
     snd (snd st) \<subseteq> snd (snd (transitive_module_deps all_modules m st))"
  "transitive_module_deps_transitive_module_deps_loop_dom (Inr (all_modules, ns, st)) \<Longrightarrow>
     snd (snd st) \<subseteq> snd (snd (transitive_module_deps_loop all_modules ns st))"
proof (induction all_modules m st and all_modules ns st
    rule: transitive_module_deps_transitive_module_deps_loop.pinduct)
  case (1 all_modules m ds unknown_deps seen)
  then show ?case by (auto simp: transitive_module_deps.psimps)
next
  case (2 all_modules st)
  then show ?case by (simp add: transitive_module_deps_loop.psimps)
next
  case (3 all_modules n ns ds unknown_deps seen)
  show ?case
  proof (cases "NAMES_TO_MODULES all_modules n")
    case None
    with 3(1,2) show ?thesis by (simp add: transitive_module_deps_loop.psimps)
  next
    case (Some dep)
    show ?thesis
    proof (cases "dep \<in> seen")
      case True
      with Some 3(1,3) show ?thesis by (simp add: transitive_module_deps_loop.psimps)
    next
      case False
      from 3(4) [OF Some False] 3(5) [OF Some False]
      have "seen \<subseteq> snd (snd (transitive_module_deps_loop all_modules ns
          (transitive_module_deps all_modules dep (insert dep ds, unknown_deps, seen))))"
        by simp
      with Some False 3(1) show ?thesis by (simp add: transitive_module_deps_loop.psimps)
    qed
  qed
qed

lemma NAMES_TO_MODULES_mem: "NAMES_TO_MODULES all_modules n = Some dep \<Longrightarrow> dep \<in> set all_modules"
  by (auto simp: NAMES_TO_MODULES_def dest: map_of_SomeD)

termination transitive_module_deps
proof (relation "inv_image (less_than <*lex*> less_than <*lex*> less_than)
    (\<lambda>x. case x of
       Inl (all_modules, m, (ds, unknown_deps, seen)) \<Rightarrow>
         (card (set all_modules - insert m seen), 1::nat, 0::nat)
     | Inr (all_modules, ns, (ds, unknown_deps, seen)) \<Rightarrow>
         (card (set all_modules - seen), 0, length ns))", goal_cases)
  case 1
  show ?case by (intro wf_inv_image wf_lex_prod wf_less_than)
next
  case (2 all_modules m ds unknown_deps seen)
  then show ?case by simp
next
  case (3 all_modules n ns ds unknown_deps seen)
  then show ?case by simp
next
  case (4 all_modules n ns ds unknown_deps seen dep)
  then show ?case by simp
next
  case (5 all_modules n ns ds unknown_deps seen dep)
  then have "dep \<in> set all_modules - seen" by (auto dest: NAMES_TO_MODULES_mem)
  then have "card (set all_modules - insert dep seen) < card (set all_modules - seen)"
    by (intro psubset_card_mono) auto
  then show ?case by simp
next
  case (6 all_modules n ns ds unknown_deps seen dep)
  obtain ds' u' seen' where r:
    "transitive_module_deps all_modules dep (insert dep ds, unknown_deps, seen) = (ds', u', seen')"
    by (cases "transitive_module_deps all_modules dep (insert dep ds, unknown_deps, seen)") auto
  from seen_grows(1) [OF 6(3)] r have "seen \<subseteq> seen'" by simp
  then have "card (set all_modules - seen') \<le> card (set all_modules - seen)"
    by (intro card_mono) auto
  then show ?case using r by auto
qed

definition get_transitive_module_deps :: "Module list \<Rightarrow> Module \<Rightarrow> Module set \<times> string set" where
  "get_transitive_module_deps all_modules m =
     (case transitive_module_deps all_modules m ({}, {}, {}) of
        (ds, unknown_deps, seen) \<Rightarrow> (ds, unknown_deps))"

text \<open>
  \<^verbatim>\<open>get_modules_to_build\<close>. \<^verbatim>\<open>NAMES_TO_MODULES[name]\<close> raises KeyError for a
  name that is not a key. \<^verbatim>\<open>list(modules)\<close> enumerates the set in some order;
  every module in it is a value of \<^verbatim>\<open>NAMES_TO_MODULES\<close>, so the list is enumerated
  from \<open>all_modules\<close> here, and \<^verbatim>\<open>str(module)\<close>, the sort key, is the module's name.
\<close>

fun join :: "string \<Rightarrow> string list \<Rightarrow> string" where
  "join sep [] = []"
| "join sep [x] = x"
| "join sep (x # y # zs) = x @ sep @ join sep (y # zs)"

type_synonym selection = "string set \<times> Module set \<times> Module set"

fun get_modules_to_build_loop ::
  "Module list \<Rightarrow> string list \<Rightarrow> string list \<Rightarrow> selection \<Rightarrow> error + selection" where
  "get_modules_to_build_loop all_modules module_names [] st = Inr st"
| "get_modules_to_build_loop all_modules module_names (n # ns) (unknown_modules, modules, deps_only) =
     (let unknown_modules' =
            (if NAMES_TO_MODULES all_modules n = None then insert n unknown_modules
             else unknown_modules)
      in (case NAMES_TO_MODULES all_modules n of
            None \<Rightarrow> Inl (KeyError n)
          | Some m \<Rightarrow>
              (case get_transitive_module_deps all_modules m of
                 (ds, unknown_deps) \<Rightarrow>
                   get_modules_to_build_loop all_modules module_names ns
                     (unknown_modules' \<union> unknown_deps,
                      insert m modules \<union> ds,
                      deps_only \<union> {dep \<in> ds. mod_name dep \<notin> set module_names}))))"

definition get_modules_to_build ::
  "Module list \<Rightarrow> string list \<Rightarrow> error + (Module list \<times> Module set)" where
  "get_modules_to_build all_modules module_names =
     (case get_modules_to_build_loop all_modules module_names module_names ({}, {}, {}) of
        Inl e \<Rightarrow> Inl e
      | Inr (unknown_modules, modules, deps_only) \<Rightarrow>
          if unknown_modules \<noteq> {}
          then Inl (SystemExit (Inl (''Unknown modules: ''
                 @ join '', '' (sorted_list_of_set unknown_modules))))
          else Inr (sort_key mod_name (filter (\<lambda>m. m \<in> modules) (remdups all_modules)),
                    deps_only))"

subsection \<open>Sample registries\<close>

text \<open>X depends on two names that are not registered; C depends on V.\<close>

definition module_X :: Module where
  "module_X = \<lparr>mod_name = ''X'', deps = [''Y'', ''W'']\<rparr>"

definition module_V :: Module where
  "module_V = \<lparr>mod_name = ''V'', deps = []\<rparr>"

definition module_C :: Module where
  "module_C = \<lparr>mod_name = ''C'', deps = [''V'']\<rparr>"

text \<open>Two modules that depend on each other.\<close>

definition cycle_a :: Module where
  "cycle_a = \<lparr>mod_name = ''a'', deps = [''b'']\<rparr>"

definition cycle_b :: Module where
  "cycle_b = \<lparr>mod_name = ''b'', deps = [''a'']\<rparr>"

subsection \<open>The dependency closure\<close>

text \<open>
  The dependency graph of a registry: an edge from a module to every registered module
  one of its \<^verbatim>\<open>deps\<close> names; and the names among a module's \<^verbatim>\<open>deps\<close> that are
  not registered.
\<close>

definition module_edges :: "Module list \<Rightarrow> (Module \<times> Module) set" where
  "module_edges all_modules =
     {(m, d). \<exists>n\<in>set (deps m). NAMES_TO_MODULES all_modules n = Some d}"

definition unknown_names :: "Module list \<Rightarrow> Module \<Rightarrow> string set" where
  "unknown_names all_modules m = {n \<in> set (deps m). NAMES_TO_MODULES all_modules n = None}"

definition known_deps :: "Module list \<Rightarrow> string list \<Rightarrow> Module set" where
  "known_deps all_modules ns = {d. \<exists>n\<in>set ns. NAMES_TO_MODULES all_modules n = Some d}"

abbreviation "seen_of st \<equiv> snd (snd st)"
abbreviation "unknown_of st \<equiv> fst (snd st)"
abbreviation "deps_of st \<equiv> fst st"

lemmas tmd_induct = transitive_module_deps_transitive_module_deps_loop.induct

lemma loop_Cons:
  "transitive_module_deps_loop all_modules (n # ns) (ds, u, seen) =
     (case NAMES_TO_MODULES all_modules n of
        None \<Rightarrow> transitive_module_deps_loop all_modules ns (ds, insert n u, seen)
      | Some dep \<Rightarrow>
          if dep \<in> seen then transitive_module_deps_loop all_modules ns (ds, u, seen)
          else transitive_module_deps_loop all_modules ns
                 (transitive_module_deps all_modules dep (insert dep ds, u, seen)))"
  by simp

lemma seen_mono:
  "insert m (seen_of st) \<subseteq> seen_of (transitive_module_deps all_modules m st)"
  "seen_of st \<subseteq> seen_of (transitive_module_deps_loop all_modules ns st)"
proof (induction all_modules m st and all_modules ns st rule: tmd_induct)
  case (1 all_modules m ds unknown_deps seen)
  then show ?case by simp
next
  case (2 all_modules st)
  then show ?case by simp
next
  case (3 all_modules n ns ds unknown_deps seen)
  show ?case
  proof (cases "NAMES_TO_MODULES all_modules n")
    case None
    with 3(1) show ?thesis by simp
  next
    case (Some dep)
    show ?thesis
    proof (cases "dep \<in> seen")
      case True
      with Some 3(2) show ?thesis by simp
    next
      case False
      from 3(3) [OF Some False] 3(4) [OF Some False]
      show ?thesis using Some False by auto
    qed
  qed
qed


lemma deps_added:
  "deps_of (transitive_module_deps all_modules m st)
     = deps_of st \<union> (seen_of (transitive_module_deps all_modules m st) - insert m (seen_of st))"
  "deps_of (transitive_module_deps_loop all_modules ns st)
     = deps_of st \<union> (seen_of (transitive_module_deps_loop all_modules ns st) - seen_of st)"
proof (induction all_modules m st and all_modules ns st rule: tmd_induct)
  case (1 all_modules m ds unknown_deps seen)
  then show ?case by simp
next
  case (2 all_modules st)
  then show ?case by simp
next
  case (3 all_modules n ns ds unknown_deps seen)
  show ?case
  proof (cases "NAMES_TO_MODULES all_modules n")
    case None
    with 3(1) show ?thesis by simp
  next
    case (Some dep)
    show ?thesis
    proof (cases "dep \<in> seen")
      case True
      with Some 3(2) show ?thesis by simp
    next
      case False
      let ?st1 = "transitive_module_deps all_modules dep (insert dep ds, unknown_deps, seen)"
      let ?st2 = "transitive_module_deps_loop all_modules ns ?st1"
      have m1: "insert dep seen \<subseteq> seen_of ?st1"
        using seen_mono(1) [of dep "(insert dep ds, unknown_deps, seen)" all_modules] by simp
      have m2: "seen_of ?st1 \<subseteq> seen_of ?st2" by (rule seen_mono(2))
      have d1: "deps_of ?st1 = insert dep ds \<union> (seen_of ?st1 - insert dep seen)"
        using 3(3) [OF Some False] by simp
      have d2: "deps_of ?st2 = deps_of ?st1 \<union> (seen_of ?st2 - seen_of ?st1)"
        using 3(4) [OF Some False] by simp
      have "deps_of ?st2 = ds \<union> (seen_of ?st2 - seen)"
        unfolding d2 d1 using m1 m2 False by auto
      then show ?thesis using Some False by simp
    qed
  qed
qed

lemma seen_closed:
  "\<forall>x\<in>seen_of (transitive_module_deps all_modules m st) - seen_of st.
      module_edges all_modules `` {x} \<subseteq> seen_of (transitive_module_deps all_modules m st)"
  "known_deps all_modules ns \<subseteq> seen_of (transitive_module_deps_loop all_modules ns st)
   \<and> (\<forall>x\<in>seen_of (transitive_module_deps_loop all_modules ns st) - seen_of st.
      module_edges all_modules `` {x} \<subseteq> seen_of (transitive_module_deps_loop all_modules ns st))"
proof (induction all_modules m st and all_modules ns st rule: tmd_induct)
  case (1 all_modules m ds unknown_deps seen)
  have "module_edges all_modules `` {m} = known_deps all_modules (deps m)"
    by (auto simp: module_edges_def known_deps_def)
  with 1 show ?case by auto
next
  case (2 all_modules st)
  then show ?case by (simp add: known_deps_def)
next
  case (3 all_modules n ns ds unknown_deps seen)
  show ?case
  proof (cases "NAMES_TO_MODULES all_modules n")
    case None
    then have "known_deps all_modules (n # ns) = known_deps all_modules ns"
      by (auto simp: known_deps_def)
    with None 3(1) show ?thesis by simp
  next
    case (Some dep)
    then have k: "known_deps all_modules (n # ns) = insert dep (known_deps all_modules ns)"
      by (auto simp: known_deps_def)
    show ?thesis
    proof (cases "dep \<in> seen")
      case True
      have "seen \<subseteq> seen_of (transitive_module_deps_loop all_modules ns (ds, unknown_deps, seen))"
        using seen_mono(2) [of "(ds, unknown_deps, seen)" all_modules ns] by simp
      with True Some 3(2) k show ?thesis by auto
    next
      case False
      let ?st1 = "transitive_module_deps all_modules dep (insert dep ds, unknown_deps, seen)"
      let ?st2 = "transitive_module_deps_loop all_modules ns ?st1"
      have m1: "insert dep seen \<subseteq> seen_of ?st1"
        using seen_mono(1) [of dep "(insert dep ds, unknown_deps, seen)" all_modules] by simp
      have m2: "seen_of ?st1 \<subseteq> seen_of ?st2" by (rule seen_mono(2))
      have c1: "\<forall>x\<in>seen_of ?st1 - seen. module_edges all_modules `` {x} \<subseteq> seen_of ?st1"
        using 3(3) [OF Some False] by simp
      have c2: "known_deps all_modules ns \<subseteq> seen_of ?st2"
        and c3: "\<forall>x\<in>seen_of ?st2 - seen_of ?st1. module_edges all_modules `` {x} \<subseteq> seen_of ?st2"
        using 3(4) [OF Some False] by simp_all
      have "known_deps all_modules (n # ns) \<subseteq> seen_of ?st2"
        unfolding k using c2 m1 m2 by auto
      moreover have "\<forall>x\<in>seen_of ?st2 - seen. module_edges all_modules `` {x} \<subseteq> seen_of ?st2"
      proof
        fix x assume x: "x \<in> seen_of ?st2 - seen"
        show "module_edges all_modules `` {x} \<subseteq> seen_of ?st2"
        proof (cases "x \<in> seen_of ?st1")
          case True
          with x c1 have "module_edges all_modules `` {x} \<subseteq> seen_of ?st1" by blast
          with m2 show ?thesis by blast
        next
          case False
          with x c3 show ?thesis by blast
        qed
      qed
      ultimately show ?thesis using Some False by simp
    qed
  qed
qed

lemma seen_reachable:
  "seen_of (transitive_module_deps all_modules m st)
     \<subseteq> seen_of st \<union> (module_edges all_modules)\<^sup>* `` {m}"
  "seen_of (transitive_module_deps_loop all_modules ns st)
     \<subseteq> seen_of st \<union> (module_edges all_modules)\<^sup>* `` known_deps all_modules ns"
proof (induction all_modules m st and all_modules ns st rule: tmd_induct)
  case (1 all_modules m ds unknown_deps seen)
  have "known_deps all_modules (deps m) = module_edges all_modules `` {m}"
    by (auto simp: module_edges_def known_deps_def)
  then have "(module_edges all_modules)\<^sup>* `` known_deps all_modules (deps m)
      \<subseteq> (module_edges all_modules)\<^sup>* `` {m}"
    by (auto intro: converse_rtrancl_into_rtrancl)
  with 1 show ?case by auto
next
  case (2 all_modules st)
  then show ?case by simp
next
  case (3 all_modules n ns ds unknown_deps seen)
  show ?case
  proof (cases "NAMES_TO_MODULES all_modules n")
    case None
    then have "known_deps all_modules (n # ns) = known_deps all_modules ns"
      by (auto simp: known_deps_def)
    with None 3(1) show ?thesis by simp
  next
    case (Some dep)
    then have k: "known_deps all_modules (n # ns) = insert dep (known_deps all_modules ns)"
      by (auto simp: known_deps_def)
    show ?thesis
    proof (cases "dep \<in> seen")
      case True
      with Some 3(2) k show ?thesis by auto
    next
      case False
      from 3(3) [OF Some False] 3(4) [OF Some False]
      show ?thesis using Some False k by auto
    qed
  qed
qed

lemma unknown_added:
  "unknown_of (transitive_module_deps all_modules m st)
     = unknown_of st \<union> unknown_names all_modules m
       \<union> (\<Union>x\<in>seen_of (transitive_module_deps all_modules m st) - insert m (seen_of st).
             unknown_names all_modules x)"
  "unknown_of (transitive_module_deps_loop all_modules ns st)
     = unknown_of st \<union> {k \<in> set ns. NAMES_TO_MODULES all_modules k = None}
       \<union> (\<Union>x\<in>seen_of (transitive_module_deps_loop all_modules ns st) - seen_of st.
             unknown_names all_modules x)"
proof (induction all_modules m st and all_modules ns st rule: tmd_induct)
  case (1 all_modules m ds unknown_deps seen)
  then show ?case by (simp add: unknown_names_def)
next
  case (2 all_modules st)
  then show ?case by simp
next
  case (3 all_modules n ns ds unknown_deps seen)
  show ?case
  proof (cases "NAMES_TO_MODULES all_modules n")
    case None
    with 3(1) show ?thesis by auto
  next
    case (Some dep)
    show ?thesis
    proof (cases "dep \<in> seen")
      case True
      with Some 3(2) show ?thesis by auto
    next
      case False
      let ?st1 = "transitive_module_deps all_modules dep (insert dep ds, unknown_deps, seen)"
      let ?st2 = "transitive_module_deps_loop all_modules ns ?st1"
      have m1: "insert dep seen \<subseteq> seen_of ?st1"
        using seen_mono(1) [of dep "(insert dep ds, unknown_deps, seen)" all_modules] by simp
      have m2: "seen_of ?st1 \<subseteq> seen_of ?st2" by (rule seen_mono(2))
      have u1: "unknown_of ?st1 = unknown_deps \<union> unknown_names all_modules dep
          \<union> (\<Union>x\<in>seen_of ?st1 - insert dep seen. unknown_names all_modules x)"
        using 3(3) [OF Some False] by simp
      have u2: "unknown_of ?st2 = unknown_of ?st1
          \<union> {k \<in> set ns. NAMES_TO_MODULES all_modules k = None}
          \<union> (\<Union>x\<in>seen_of ?st2 - seen_of ?st1. unknown_names all_modules x)"
        using 3(4) [OF Some False] by simp
      have split: "seen_of ?st2 - seen
          = insert dep (seen_of ?st1 - insert dep seen) \<union> (seen_of ?st2 - seen_of ?st1)"
        using m1 m2 False by auto
      have "unknown_of ?st2 = unknown_deps
          \<union> {k \<in> set (n # ns). NAMES_TO_MODULES all_modules k = None}
          \<union> (\<Union>x\<in>seen_of ?st2 - seen. unknown_names all_modules x)"
        unfolding u2 u1 split using Some by auto
      then show ?thesis using Some False by simp
    qed
  qed
qed

text \<open>
  C8, as stated, at two modules that depend on each other: the computation returns
  the pair of sets and nothing else, with no unknown name and no trace of the cycle,
  exactly as it does for a module with one dependency that has none.
\<close>

theorem cycle_not_reported_counterexample:
  "(cycle_a, cycle_b) \<in> module_edges [cycle_a, cycle_b]
   \<and> (cycle_b, cycle_a) \<in> module_edges [cycle_a, cycle_b]
   \<and> get_transitive_module_deps [cycle_a, cycle_b] cycle_a = ({cycle_b}, {})
   \<and> get_transitive_module_deps [module_C, module_V] module_C = ({module_V}, {})"
  by (simp add: module_edges_def get_transitive_module_deps_def NAMES_TO_MODULES_def
      cycle_a_def cycle_b_def module_C_def module_V_def)

text \<open>
  C8 (amended): the closure computation terminates on every module graph, cyclic or
  not (the function is total; the seen set stops the traversal at a module met before,
  and the cycle is neither detected nor reported here). Its result is determined by
  the module and the registry alone: \<^verbatim>\<open>deps\<close> is the set of modules reachable from
  the module along dependency edges, without the module itself, and
  \<^verbatim>\<open>unknown_deps\<close> is the set of unregistered names among the dependencies of the
  reachable modules. So a second computation yields the same pair, whatever order the
  dependency sets are iterated in.
\<close>

theorem get_transitive_module_deps_closure:
  "get_transitive_module_deps all_modules m =
     ((module_edges all_modules)\<^sup>* `` {m} - {m},
      \<Union>x\<in>(module_edges all_modules)\<^sup>* `` {m}. unknown_names all_modules x)"
proof -
  let ?st = "transitive_module_deps all_modules m ({}, {}, {})"
  let ?E = "module_edges all_modules"
  have m: "m \<in> seen_of ?st"
    using seen_mono(1) [of m "({}, {}, {})" all_modules] by simp
  have closed: "\<forall>x\<in>seen_of ?st. ?E `` {x} \<subseteq> seen_of ?st"
    using seen_closed(1) [of all_modules m "({}, {}, {})"] by simp
  have "y \<in> seen_of ?st" if "(m, y) \<in> ?E\<^sup>*" for y
    using that by (induction rule: rtrancl_induct) (use m closed in auto)
  moreover have "seen_of ?st \<subseteq> ?E\<^sup>* `` {m}"
    using seen_reachable(1) [of all_modules m "({}, {}, {})"] by simp
  ultimately have seen: "seen_of ?st = ?E\<^sup>* `` {m}" by auto
  have ds: "deps_of ?st = seen_of ?st - {m}"
    using deps_added(1) [of all_modules m "({}, {}, {})"] by simp
  have un: "unknown_of ?st = (\<Union>x\<in>seen_of ?st. unknown_names all_modules x)"
    using unknown_added(1) [of all_modules m "({}, {}, {})"] m by auto
  show ?thesis
    unfolding get_transitive_module_deps_def using ds un seen
    by (simp add: case_prod_beta)
qed

subsection \<open>Unknown module names\<close>

text \<open>
  C6 at a request for two names that are not registered: the lookup
  \<^verbatim>\<open>NAMES_TO_MODULES[name]\<close> follows the \<^verbatim>\<open>unknown_modules.add(name)\<close> without a
  \<^verbatim>\<open>continue\<close>, so the first unknown requested name raises KeyError and nothing is
  collected. Unknown names met among the dependencies are collected and reported
  together, as the request for X shows.
\<close>

theorem get_modules_to_build_unknown_request:
  "get_modules_to_build [module_X, module_V] [''nosuch'', ''missing'']
     = Inl (KeyError ''nosuch'')
   \<and> get_modules_to_build [module_X, module_V] [''X'']
     = Inl (SystemExit (Inl ''Unknown modules: W, Y''))"
  by code_simp

section \<open>The build orchestrator (ndk/checkbuild.py)\<close>

subsection \<open>The dependency manager\<close>

text \<open>
  Modelled from the spec: \<^verbatim>\<open>ndk.deps.DependencyManager\<close>, which is not among the
  sources. The spec gives it three collections over the chosen modules: pending,
  in-flight (dispatched, awaiting completion) and completed. \<open>pending\<close> is a list, in
  the order \<^verbatim>\<open>get_buildable()\<close> is iterated.
\<close>

record DependencyManager =
  pending :: "Module list"
  in_flight :: "Module set"
  completed :: "Module set"

text \<open>
  Modelled from the spec: \<^verbatim>\<open>DependencyManager(modules)\<close> at the start of a run, when
  nothing is dispatched or completed.
\<close>

definition DependencyManager_init :: "Module list \<Rightarrow> DependencyManager" where
  "DependencyManager_init modules = \<lparr>pending = modules, in_flight = {}, completed = {}\<rparr>"

text \<open>
  Modelled from the spec: "\<^verbatim>\<open>buildable()\<close> = pending modules whose entire dependency
  set is a subset of completed". Dependencies are names, so a dependency is completed
  when a completed module has that name. This is the attribute
  \<^verbatim>\<open>deps.buildable_modules\<close> the \<^verbatim>\<open>while\<close> loop tests.
\<close>

definition buildable_modules :: "DependencyManager \<Rightarrow> Module list" where
  "buildable_modules dm =
     filter (\<lambda>m. set (deps m) \<subseteq> mod_name ` completed dm) (pending dm)"

text \<open>
  Modelled from the spec: \<^verbatim>\<open>get_buildable()\<close> hands out the buildable modules and
  moves them from pending to in-flight ("a module is dispatched at most once").
\<close>

definition get_buildable :: "DependencyManager \<Rightarrow> Module list \<times> DependencyManager" where
  "get_buildable dm =
     (buildable_modules dm,
      dm\<lparr>pending := filter (\<lambda>m. \<not> set (deps m) \<subseteq> mod_name ` completed dm) (pending dm),
         in_flight := in_flight dm \<union> set (buildable_modules dm)\<rparr>)"

text \<open>
  Modelled from the spec: "\<^verbatim>\<open>complete(module)\<close> moves a module from in-flight to
  completed".
\<close>

definition complete :: "Module \<Rightarrow> DependencyManager \<Rightarrow> DependencyManager" where
  "complete m dm = dm\<lparr>in_flight := in_flight dm - {m}, completed := insert m (completed dm)\<rparr>"

subsection \<open>The work queue and the console\<close>

text \<open>
  What the orchestrator does to the outside, in order: tasks added to the work queue,
  results retrieved from it, modules marked complete, and console output.
  \<open>PrintLog m\<close> and \<open>AppendBuildErrorLog m\<close> are the two effects of
  \<^verbatim>\<open>log_build_failure\<close> on the log of module \<open>m\<close>.
\<close>

datatype event =
    AddTask Module
  | GetResult Module bool
  | Complete Module
  | UiClear
  | UiDraw
  | Print string
  | PrintLog Module
  | AppendBuildErrorLog Module

text \<open>
  The state the two functions share: the dependency manager, the tasks added to the
  work queue whose result has not been retrieved, and the events so far.
\<close>

record build_state =
  manager :: DependencyManager
  queue :: "Module list"
  trace :: "event list"

text \<open>
  Modelled from the spec: \<^verbatim>\<open>ndk.workqueue.WorkQueue\<close>, which is not among the
  sources. \<^verbatim>\<open>finished()\<close> "reports whether all enqueued work has been retrieved";
  \<^verbatim>\<open>get_result()\<close> returns the outcome of one task, in completion order. Which
  task completes next, and whether its build succeeded, is up to the workers: the
  \<open>k\<close>-th retrieval takes the task at position \<open>i mod length q\<close> with result
  \<open>ok\<close>, where \<open>(i, ok)\<close> is what the parameter \<open>w\<close> says for \<open>k\<close>. It is
  only called on a queue that is not finished.
\<close>

type_synonym completions = "nat \<Rightarrow> nat \<times> bool"

definition finished :: "Module list \<Rightarrow> bool" where
  "finished q = (q = [])"

definition get_result :: "completions \<Rightarrow> nat \<Rightarrow> Module list \<Rightarrow> (bool \<times> Module) \<times> Module list" where
  "get_result w k q =
     (case w k of (i, ok) \<Rightarrow>
        (let j = i mod length q in ((ok, q ! j), take j q @ drop (Suc j) q)))"

text \<open>
  \<^verbatim>\<open>log_build_failure\<close>: prints the contents of the module's log and appends them
  to \<^verbatim>\<open>logs/build_error.log\<close>.
\<close>

definition log_build_failure :: "Module \<Rightarrow> event list" where
  "log_build_failure m = [PrintLog m, AppendBuildErrorLog m]"

subsection \<open>Launching and waiting\<close>

text \<open>
  The \<^verbatim>\<open>for\<close> loop of \<^verbatim>\<open>launch_buildable\<close> over the modules
  \<^verbatim>\<open>get_buildable()\<close> returned.
\<close>

fun launch_each :: "bool \<Rightarrow> Module set \<Rightarrow> Module list \<Rightarrow> build_state \<Rightarrow> build_state" where
  "launch_each skip_deps skip_modules [] st = st"
| "launch_each skip_deps skip_modules (m # ms) st =
     (if skip_deps \<and> m \<in> skip_modules
      then launch_each skip_deps skip_modules ms
             (st\<lparr>manager := complete m (manager st), trace := trace st @ [Complete m]\<rparr>)
      else launch_each skip_deps skip_modules ms
             (st\<lparr>queue := queue st @ [m], trace := trace st @ [AddTask m]\<rparr>))"

lemma launch_each_pending:
  "pending (manager (launch_each skip_deps skip_modules ms st)) = pending (manager st)"
  by (induction ms arbitrary: st) (auto simp: complete_def)

text \<open>\<^verbatim>\<open>launch_buildable\<close>: the \<^verbatim>\<open>while deps.buildable_modules\<close> loop.\<close>

function launch_buildable :: "bool \<Rightarrow> Module set \<Rightarrow> build_state \<Rightarrow> build_state" where
  "launch_buildable skip_deps skip_modules st =
     (if buildable_modules (manager st) = [] then st
      else (case get_buildable (manager st) of
              (ms, dm) \<Rightarrow>
                launch_buildable skip_deps skip_modules
                  (launch_each skip_deps skip_modules ms (st\<lparr>manager := dm\<rparr>))))"
  by pat_completeness auto

lemma get_buildable_pending:
  "buildable_modules dm \<noteq> [] \<Longrightarrow>
     length (pending (snd (get_buildable dm))) < length (pending dm)"
proof -
  assume "buildable_modules dm \<noteq> []"
  then obtain m where "m \<in> set (pending dm)" "set (deps m) \<subseteq> mod_name ` completed dm"
    by (auto simp: buildable_modules_def filter_empty_conv)
  then show ?thesis
    by (auto simp: get_buildable_def intro!: length_filter_less)
qed

termination launch_buildable
proof (relation "measure (\<lambda>(skip_deps, skip_modules, st). length (pending (manager st)))", goal_cases)
  case 1
  show ?case by simp
next
  case (2 skip_deps skip_modules st ms dm)
  then have "dm = snd (get_buildable (manager st))" by (metis snd_conv)
  with 2 show ?case
    using get_buildable_pending [of "manager st"] by (simp add: launch_each_pending)
qed

declare launch_buildable.simps [simp del]

lemma length_get_result:
  "q \<noteq> [] \<Longrightarrow> length (snd (get_result w k q)) < length q"
proof -
  assume q: "q \<noteq> []"
  obtain i ok where w: "w k = (i, ok)" by (cases "w k") auto
  from q have "i mod length q < length q" by simp
  then have "i mod length q + (length q - Suc (i mod length q)) < length q" by arith
  then show ?thesis using w by (simp add: get_result_def Let_def)
qed

lemma launch_each_work:
  "length (queue (launch_each skip_deps skip_modules ms st)) \<le> length (queue st) + length ms"
proof (induction ms arbitrary: st)
  case Nil
  show ?case by simp
next
  case (Cons m ms)
  show ?case
  proof (cases "skip_deps \<and> m \<in> skip_modules")
    case True
    then show ?thesis
      using Cons [of "st\<lparr>manager := complete m (manager st), trace := trace st @ [Complete m]\<rparr>"]
      by simp
  next
    case False
    then show ?thesis
      using Cons [of "st\<lparr>queue := queue st @ [m], trace := trace st @ [AddTask m]\<rparr>"]
      by auto
  qed
qed

lemma launch_buildable_work:
  "length (pending (manager (launch_buildable skip_deps skip_modules st)))
     + length (queue (launch_buildable skip_deps skip_modules st))
   \<le> length (pending (manager st)) + length (queue st)"
proof (induction skip_deps skip_modules st rule: launch_buildable.induct)
  case (1 skip_deps skip_modules st)
  show ?case
  proof (cases "buildable_modules (manager st) = []")
    case True
    then show ?thesis by (simp add: launch_buildable.simps)
  next
    case False
    obtain ms dm where g: "get_buildable (manager st) = (ms, dm)"
      by (cases "get_buildable (manager st)") auto
    let ?st1 = "launch_each skip_deps skip_modules ms (st\<lparr>manager := dm\<rparr>)"
    have split: "length (pending dm) + length ms = length (pending (manager st))"
      using g by (auto simp: get_buildable_def buildable_modules_def
          sum_length_filter_compl add.commute)
    have "length (pending (manager ?st1)) + length (queue ?st1)
        \<le> length (pending dm) + (length (queue st) + length ms)"
      using launch_each_work [of skip_deps skip_modules ms "st\<lparr>manager := dm\<rparr>"]
      by (simp add: launch_each_pending)
    with split have "length (pending (manager ?st1)) + length (queue ?st1)
        \<le> length (pending (manager st)) + length (queue st)" by simp
    moreover have "launch_buildable skip_deps skip_modules st
        = launch_buildable skip_deps skip_modules ?st1"
      using False g by (subst launch_buildable.simps) simp
    ultimately show ?thesis using 1 [OF False g [symmetric]] by simp
  qed
qed

text \<open>
  \<^verbatim>\<open>wait_for_build\<close>. It returns the exception that ends it, if any, with the state
  at that point. \<^verbatim>\<open>sys.exit(1)\<close> raises SystemExit with status 1;
  \<^verbatim>\<open>str(module)\<close> is the module's name. \<open>k\<close> counts the results retrieved.
\<close>

function wait_for_build ::
  "completions \<Rightarrow> bool \<Rightarrow> bool \<Rightarrow> Module set \<Rightarrow> nat \<Rightarrow> build_state
     \<Rightarrow> error option \<times> build_state" where
  "wait_for_build w smart_console skip_deps skip_modules k st =
     (if finished (queue st)
      then (None, st\<lparr>trace := trace st @ [UiClear, Print ''Build finished'']\<rparr>)
      else (case get_result w k (queue st) of
              ((result, m), q) \<Rightarrow>
                (let st1 = st\<lparr>queue := q, trace := trace st @ [GetResult m result]\<rparr>
                 in if \<not> result
                    then (Some (SystemExit (Inr 1)),
                          st1\<lparr>trace := trace st1
                                 @ [UiClear, Print (''Build failed: '' @ mod_name m)]
                                 @ log_build_failure m\<rparr>)
                    else (let st2 = (if \<not> smart_console
                                     then st1\<lparr>trace := trace st1
                                            @ [UiClear, Print (''Build succeeded: '' @ mod_name m)]\<rparr>
                                     else st1);
                              st3 = st2\<lparr>manager := complete m (manager st2),
                                        trace := trace st2 @ [Complete m]\<rparr>;
                              st4 = launch_buildable skip_deps skip_modules st3
                          in wait_for_build w smart_console skip_deps skip_modules (Suc k)
                               (st4\<lparr>trace := trace st4 @ [UiDraw]\<rparr>)))))"
  by pat_completeness auto

termination wait_for_build
proof (relation "measure (\<lambda>(w, smart_console, skip_deps, skip_modules, k, st).
    length (pending (manager st)) + length (queue st))", goal_cases)
  case 1
  show ?case by simp
next
  case (2 w smart_console skip_deps skip_modules k st x xa result m st1 st2 st3 st4)
  from 2 have "queue st \<noteq> []" by (simp add: finished_def)
  then have "length (snd (get_result w k (queue st))) < length (queue st)"
    by (rule length_get_result)
  with 2 have q: "length xa < length (queue st)" by (metis snd_conv)
  from 2 have st4: "st4 = launch_buildable skip_deps skip_modules st3" by simp
  have "length (pending (manager st4)) + length (queue st4)
      \<le> length (pending (manager st3)) + length (queue st3)"
    unfolding st4 by (rule launch_buildable_work)
  moreover have "pending (manager st3) = pending (manager st)" "queue st3 = xa"
    using 2 by (auto simp: complete_def)
  ultimately show ?case using q by simp
qed

declare wait_for_build.simps [simp del]

text \<open>
  The two calls in the \<^verbatim>\<open>try\<close> block of \<^verbatim>\<open>build_ndk\<close>, on a fresh
  dependency manager and an empty work queue.
\<close>

definition build :: "completions \<Rightarrow> bool \<Rightarrow> bool \<Rightarrow> Module set \<Rightarrow> Module list
    \<Rightarrow> error option \<times> build_state" where
  "build w smart_console skip_deps deps_only modules =
     wait_for_build w smart_console skip_deps deps_only 0
       (launch_buildable skip_deps deps_only
          \<lparr>manager = DependencyManager_init modules, queue = [], trace = []\<rparr>)"

subsection \<open>Sample runs\<close>

text \<open>B and C depend on A.\<close>

definition mA :: Module where "mA = \<lparr>mod_name = ''A'', deps = []\<rparr>"
definition mB :: Module where "mB = \<lparr>mod_name = ''B'', deps = [''A'']\<rparr>"
definition mC :: Module where "mC = \<lparr>mod_name = ''C'', deps = [''A'']\<rparr>"

text \<open>
  Workers that fail the first task of the queue, and workers that finish the second
  task of the queue first (the only one, if there is one).
\<close>

definition failing_first :: completions where
  "failing_first k = (0, False)"

definition second_first :: completions where
  "second_first k = (1, True)"

definition waiting_for_A :: build_state where
  "waiting_for_A =
     \<lparr>manager = \<lparr>pending = [mB, mC], in_flight = {mA}, completed = {}\<rparr>,
      queue = [mA], trace = [AddTask mA]\<rparr>"

subsection \<open>Dispatch order\<close>

text \<open>
  A trace respects the dependencies when every \<open>AddTask m\<close> comes after a
  \<open>Complete\<close> event for each name in \<open>deps m\<close> (or the name was complete before
  the trace began: the first argument).
\<close>

fun deps_complete_before :: "string set \<Rightarrow> event list \<Rightarrow> bool" where
  "deps_complete_before names [] = True"
| "deps_complete_before names (AddTask m # es) =
     (set (deps m) \<subseteq> names \<and> deps_complete_before names es)"
| "deps_complete_before names (Complete m # es) =
     deps_complete_before (insert (mod_name m) names) es"
| "deps_complete_before names (e # es) = deps_complete_before names es"

text \<open>
  A module is marked complete only after its task's successful result has been
  retrieved, that is, after its install has finished, or because it is skipped as an
  already built dependency.
\<close>

fun completes_after_result :: "bool \<Rightarrow> Module set \<Rightarrow> Module set \<Rightarrow> event list \<Rightarrow> bool" where
  "completes_after_result skip_deps skip_modules ok [] = True"
| "completes_after_result skip_deps skip_modules ok (GetResult m r # es) =
     completes_after_result skip_deps skip_modules (if r then insert m ok else ok) es"
| "completes_after_result skip_deps skip_modules ok (Complete m # es) =
     ((skip_deps \<and> m \<in> skip_modules \<or> m \<in> ok)
      \<and> completes_after_result skip_deps skip_modules ok es)"
| "completes_after_result skip_deps skip_modules ok (e # es) =
     completes_after_result skip_deps skip_modules ok es"

definition names_done :: "event list \<Rightarrow> string set" where
  "names_done es = {mod_name m |m. Complete m \<in> set es}"

definition ok_results :: "event list \<Rightarrow> Module set" where
  "ok_results es = {m. GetResult m True \<in> set es}"

lemma names_done_simps [simp]:
  "names_done [] = {}"
  "names_done (Complete m # es) = insert (mod_name m) (names_done es)"
  "names_done (AddTask m # es) = names_done es"
  "names_done (GetResult m r # es) = names_done es"
  "names_done (UiClear # es) = names_done es"
  "names_done (UiDraw # es) = names_done es"
  "names_done (Print s # es) = names_done es"
  "names_done (PrintLog m # es) = names_done es"
  "names_done (AppendBuildErrorLog m # es) = names_done es"
  "names_done (es @ es') = names_done es \<union> names_done es'"
  by (auto simp: names_done_def)

lemma ok_results_simps [simp]:
  "ok_results [] = {}"
  "ok_results (GetResult m r # es) = (if r then insert m (ok_results es) else ok_results es)"
  "ok_results (Complete m # es) = ok_results es"
  "ok_results (AddTask m # es) = ok_results es"
  "ok_results (UiClear # es) = ok_results es"
  "ok_results (UiDraw # es) = ok_results es"
  "ok_results (Print s # es) = ok_results es"
  "ok_results (PrintLog m # es) = ok_results es"
  "ok_results (AppendBuildErrorLog m # es) = ok_results es"
  "ok_results (es @ es') = ok_results es \<union> ok_results es'"
  by (auto simp: ok_results_def)

lemma deps_complete_before_append:
  "deps_complete_before names (es @ es') =
     (deps_complete_before names es \<and> deps_complete_before (names \<union> names_done es) es')"
proof (induction es arbitrary: names)
  case Nil
  show ?case by simp
next
  case (Cons e es)
  show ?case by (cases e) (auto simp: Cons.IH)
qed

lemma completes_after_result_append:
  "completes_after_result skip_deps skip_modules ok (es @ es') =
     (completes_after_result skip_deps skip_modules ok es
      \<and> completes_after_result skip_deps skip_modules (ok \<union> ok_results es) es')"
proof (induction es arbitrary: ok)
  case Nil
  show ?case by simp
next
  case (Cons e es)
  show ?case by (cases e) (auto simp: Cons.IH)
qed

definition ordered :: "bool \<Rightarrow> Module set \<Rightarrow> build_state \<Rightarrow> bool" where
  "ordered skip_deps skip_modules st =
     (deps_complete_before {} (trace st)
      \<and> completes_after_result skip_deps skip_modules {} (trace st)
      \<and> mod_name ` completed (manager st) \<subseteq> names_done (trace st))"

lemma launch_each_ordered:
  "ordered skip_deps skip_modules st \<Longrightarrow>
   \<forall>m\<in>set ms. set (deps m) \<subseteq> mod_name ` completed (manager st) \<Longrightarrow>
   ordered skip_deps skip_modules (launch_each skip_deps skip_modules ms st)"
proof (induction ms arbitrary: st)
  case Nil
  then show ?case by simp
next
  case (Cons m ms)
  show ?case
  proof (cases "skip_deps \<and> m \<in> skip_modules")
    case True
    let ?st = "st\<lparr>manager := complete m (manager st), trace := trace st @ [Complete m]\<rparr>"
    have "ordered skip_deps skip_modules ?st"
      using Cons.prems(1) True
      by (auto simp: ordered_def deps_complete_before_append completes_after_result_append
          complete_def)
    moreover have "\<forall>m\<in>set ms. set (deps m) \<subseteq> mod_name ` completed (manager ?st)"
      using Cons.prems(2) by (auto simp: complete_def)
    ultimately show ?thesis using True Cons.IH [of ?st] by simp
  next
    case False
    let ?st = "st\<lparr>queue := queue st @ [m], trace := trace st @ [AddTask m]\<rparr>"
    have "set (deps m) \<subseteq> names_done (trace st)"
      using Cons.prems by (auto simp: ordered_def)
    then have "ordered skip_deps skip_modules ?st"
      using Cons.prems(1)
      by (auto simp: ordered_def deps_complete_before_append completes_after_result_append)
    moreover have "\<forall>m\<in>set ms. set (deps m) \<subseteq> mod_name ` completed (manager ?st)"
      using Cons.prems(2) by auto
    ultimately show ?thesis using False Cons.IH [of ?st] by auto
  qed
qed

lemma launch_buildable_ordered:
  "ordered skip_deps skip_modules st \<Longrightarrow>
   ordered skip_deps skip_modules (launch_buildable skip_deps skip_modules st)"
proof (induction skip_deps skip_modules st rule: launch_buildable.induct)
  case (1 skip_deps skip_modules st)
  show ?case
  proof (cases "buildable_modules (manager st) = []")
    case True
    with 1(2) show ?thesis by (simp add: launch_buildable.simps)
  next
    case False
    obtain ms dm where g: "get_buildable (manager st) = (ms, dm)"
      by (cases "get_buildable (manager st)") auto
    let ?st0 = "st\<lparr>manager := dm\<rparr>"
    let ?st1 = "launch_each skip_deps skip_modules ms ?st0"
    have c: "completed dm = completed (manager st)"
      using g by (auto simp: get_buildable_def)
    have "ordered skip_deps skip_modules ?st0"
      using 1(2) c by (simp add: ordered_def)
    moreover have "\<forall>m\<in>set ms. set (deps m) \<subseteq> mod_name ` completed (manager ?st0)"
      using g c by (auto simp: get_buildable_def buildable_modules_def)
    ultimately have "ordered skip_deps skip_modules ?st1" by (rule launch_each_ordered)
    then have "ordered skip_deps skip_modules (launch_buildable skip_deps skip_modules ?st1)"
      by (rule 1(1) [OF False g [symmetric]])
    moreover have "launch_buildable skip_deps skip_modules st
        = launch_buildable skip_deps skip_modules ?st1"
      using False g by (subst launch_buildable.simps) simp
    ultimately show ?thesis by simp
  qed
qed

lemma wait_for_build_ordered:
  "ordered skip_deps skip_modules st \<Longrightarrow>
   ordered skip_deps skip_modules
     (snd (wait_for_build w smart_console skip_deps skip_modules k st))"
proof (induction w smart_console skip_deps skip_modules k st rule: wait_for_build.induct)
  case (1 w smart_console skip_deps skip_modules k st)
  show ?case
  proof (cases "finished (queue st)")
    case True
    with 1(2) show ?thesis
      by (subst wait_for_build.simps)
        (simp add: ordered_def deps_complete_before_append completes_after_result_append)
  next
    case False
    obtain result m q where g: "get_result w k (queue st) = ((result, m), q)"
      by (cases "get_result w k (queue st)") auto
    let ?st1 = "st\<lparr>queue := q, trace := trace st @ [GetResult m result]\<rparr>"
    have o1: "ordered skip_deps skip_modules ?st1"
      using 1(2) by (auto simp: ordered_def deps_complete_before_append
          completes_after_result_append)
    show ?thesis
    proof (cases result)
      case False
      with \<open>\<not> finished (queue st)\<close> g o1 show ?thesis
        by (subst wait_for_build.simps)
          (auto simp: ordered_def deps_complete_before_append completes_after_result_append
            log_build_failure_def)
    next
      case True
      let ?st2 = "if \<not> smart_console
                  then ?st1\<lparr>trace := trace ?st1
                         @ [UiClear, Print (''Build succeeded: '' @ mod_name m)]\<rparr>
                  else ?st1"
      let ?st3 = "?st2\<lparr>manager := complete m (manager ?st2), trace := trace ?st2 @ [Complete m]\<rparr>"
      let ?st4 = "launch_buildable skip_deps skip_modules ?st3"
      let ?st5 = "?st4\<lparr>trace := trace ?st4 @ [UiDraw]\<rparr>"
      have "ordered skip_deps skip_modules ?st3"
        using o1 True
        by (auto simp: ordered_def deps_complete_before_append completes_after_result_append
            complete_def)
      then have "ordered skip_deps skip_modules ?st4" by (rule launch_buildable_ordered)
      then have o5: "ordered skip_deps skip_modules ?st5"
        by (auto simp: ordered_def deps_complete_before_append completes_after_result_append)
      have "ordered skip_deps skip_modules
          (snd (wait_for_build w smart_console skip_deps skip_modules (Suc k) ?st5))"
        by (rule 1(1) [OF False g [symmetric] refl refl _ refl refl refl])
          (use True o5 in simp_all)
      moreover have "wait_for_build w smart_console skip_deps skip_modules k st
          = wait_for_build w smart_console skip_deps skip_modules (Suc k) ?st5"
        using False g True by (subst wait_for_build.simps) (simp add: Let_def)
      ultimately show ?thesis by simp
    qed
  qed
qed

text \<open>
  C1: in every run of the orchestrator, for every module list, every behaviour of the
  workers and every skip setting, a module is added to the work queue only after
  \<^verbatim>\<open>deps.complete\<close> has been called for each of its dependencies; and a module is
  marked complete only after the successful result of its task (build and install) has
  been retrieved, unless it is skipped. So a module is dispatched, and hence installed,
  after the installs of the dependencies built in the run.
\<close>

theorem build_dispatch_order:
  "deps_complete_before {}
     (trace (snd (build w smart_console skip_deps deps_only modules)))
   \<and> completes_after_result skip_deps deps_only {}
     (trace (snd (build w smart_console skip_deps deps_only modules)))"
proof -
  have "ordered skip_deps deps_only
      \<lparr>manager = DependencyManager_init modules, queue = [], trace = []\<rparr>"
    by (simp add: ordered_def DependencyManager_init_def)
  then have "ordered skip_deps deps_only (snd (build w smart_console skip_deps deps_only modules))"
    unfolding build_def by (intro wait_for_build_ordered launch_buildable_ordered)
  then show ?thesis by (simp add: ordered_def)
qed

theorem build_dispatch_order_witness:
  "trace (snd (build second_first True False {} [mB, mA, mC]))
     = [AddTask mA, GetResult mA True, Complete mA, AddTask mB, AddTask mC, UiDraw,
        GetResult mC True, Complete mC, UiDraw, GetResult mB True, Complete mB, UiDraw,
        UiClear, Print ''Build finished'']
   \<and> deps_complete_before {} (trace (snd (build second_first True False {} [mB, mA, mC])))
   \<and> completes_after_result False {}  {}
        (trace (snd (build second_first True False {} [mB, mA, mC])))"
proof -
  have "trace (snd (build second_first True False {} [mB, mA, mC]))
     = [AddTask mA, GetResult mA True, Complete mA, AddTask mB, AddTask mC, UiDraw,
        GetResult mC True, Complete mC, UiDraw, GetResult mB True, Complete mB, UiDraw,
        UiClear, Print ''Build finished'']"
    by code_simp
  then show ?thesis
    using build_dispatch_order [of second_first True False "{}" "[mB, mA, mC]"] by simp
qed

subsection \<open>Fail-fast\<close>

text \<open>
  C2: when the retrieved result is a failure, \<^verbatim>\<open>wait_for_build\<close> prints the failing
  module, logs its build failure and exits with status 1. Its state then differs from
  the state before only by the retrieved task and by these events: the dependency
  manager is unchanged (the module is not marked complete), no task has been added, and
  no further result has been retrieved.
\<close>

theorem wait_for_build_failure:
  assumes "\<not> finished (queue st)"
    and "get_result w k (queue st) = ((False, m), q)"
  shows "wait_for_build w smart_console skip_deps skip_modules k st =
     (Some (SystemExit (Inr 1)),
      st\<lparr>queue := q,
         trace := trace st @ [GetResult m False, UiClear,
                              Print (''Build failed: '' @ mod_name m),
                              PrintLog m, AppendBuildErrorLog m]\<rparr>)"
  using assms by (subst wait_for_build.simps) (simp add: log_build_failure_def)

theorem wait_for_build_failure_witness:
  "\<not> finished (queue waiting_for_A)
   \<and> get_result failing_first 0 (queue waiting_for_A) = ((False, mA), [])
   \<and> wait_for_build failing_first True False {} 0 waiting_for_A =
       (Some (SystemExit (Inr 1)),
        \<lparr>manager = \<lparr>pending = [mB, mC], in_flight = {mA}, completed = {}\<rparr>,
         queue = [],
         trace = [AddTask mA, GetResult mA False, UiClear, Print ''Build failed: A'',
                  PrintLog mA, AppendBuildErrorLog mA]\<rparr>)"
proof -
  have f: "\<not> finished (queue waiting_for_A)"
    by (simp add: finished_def waiting_for_A_def)
  have g: "get_result failing_first 0 (queue waiting_for_A) = ((False, mA), [])"
    by (simp add: get_result_def failing_first_def waiting_for_A_def)
  show ?thesis
    using f g wait_for_build_failure [OF f g, of True False "{}"]
    by (simp add: waiting_for_A_def mA_def)
qed

end
